theory Spec2Isabelle
  imports Main "HOL-Library.Sublist" "HOL-Library.Multiset" "HOL-Library.AList"
begin

section \<open>Python values and errors\<close>

text \<open>
  The exceptions the modelled code can raise. The library's own classes (\<open>_errors.py\<close>)
  carry a formatted message in the source; only the class is modelled. \<open>KeyError\<close> keeps
  its argument, the key of the operation.
\<close>

datatype error =
    KeyError string
  | TypeError
  | AttributeError
  | IndexError
  | RequestError
  | BadRequest
  | Forbidden
  | ServerError
  | ConflictError
  | NotFound
  | LockFailure
  | ACLDisabled

text \<open>
  \<open>kv.py\<close>, dataclass \<open>Record\<close>. The dataclass does not check the types of its fields,
  so each field holds whatever value the decoded body had.
\<close>

datatype 'v Record = Record
  (record_key: 'v)
  (create_index: 'v)
  (modify_index: 'v)
  (lock_index: 'v)
  (record_flags: 'v)
  (record_value: 'v)
  (session: 'v)

text \<open>
  The dynamically typed values that flow through the decoder: a response body is
  \<open>None\<close> (a 404), raw bytes, or a parsed JSON document; a decoded result may also be a
  \<open>Record\<close>. Strings are byte strings (ASCII text); floats do not occur in the modelled
  paths and are left out.
\<close>

datatype pyval =
    PNone
  | PBool bool
  | PInt int
  | PStr string
  | PBytes string
  | PList "pyval list"
  | PDict "(string \<times> pyval) list"
  | PRecord "pyval Record"

section \<open>Operations (\<open>kv.py\<close>)\<close>

text \<open>
  The dataclass \<open>Operation\<close>; its field \<open>value\<close> is written \<open>val\<close>. The verb is a
  string: the \<open>Literal\<close> annotation is not enforced, and the decoder tests for a verb
  (\<open>watch\<close>) outside it.
\<close>

record Operation =
  verb :: string
  key :: string
  val :: pyval
  raw :: "bool option"
  separator :: "string option"
  keys :: "bool option"
  recurse :: "bool option"
  index :: "int option"
  wait :: "string option"
  flags :: "int option"
  cas :: "int option"
  acquire :: "string option"
  release :: "string option"

text \<open>The dataclass constructor with every optional field at its default \<open>None\<close>.\<close>

definition Operation_init :: "string \<Rightarrow> string \<Rightarrow> pyval \<Rightarrow> Operation" where
  "Operation_init v k x =
     \<lparr>verb = v, key = k, val = x, raw = None, separator = None, keys = None,
      recurse = None, index = None, wait = None, flags = None, cas = None,
      acquire = None, release = None\<rparr>"

definition Operation_get :: "string \<Rightarrow> bool option \<Rightarrow> Operation" where
  "Operation_get k r = (Operation_init ''get'' k PNone)\<lparr>raw := r\<rparr>"

definition Operation_get_tree :: "string \<Rightarrow> bool \<Rightarrow> string \<Rightarrow> Operation" where
  "Operation_get_tree p rec sep =
     (Operation_init ''get-tree'' p PNone)
       \<lparr>recurse := Some True, separator := Some (if rec then '''' else sep)\<rparr>"

definition Operation_list_tree :: "string \<Rightarrow> bool \<Rightarrow> string \<Rightarrow> Operation" where
  "Operation_list_tree p rec sep =
     (Operation_init ''get-tree'' p PNone)
       \<lparr>keys := Some True, separator := Some (if rec then '''' else sep)\<rparr>"

definition Operation_set :: "string \<Rightarrow> pyval \<Rightarrow> int option \<Rightarrow> Operation" where
  "Operation_set k x f = (Operation_init ''set'' k x)\<lparr>flags := f\<rparr>"

definition Operation_set_cas :: "string \<Rightarrow> pyval \<Rightarrow> int \<Rightarrow> int option \<Rightarrow> Operation" where
  "Operation_set_cas k x i f = (Operation_init ''cas'' k x)\<lparr>flags := f, cas := Some i\<rparr>"

definition Operation_lock :: "string \<Rightarrow> string \<Rightarrow> int option \<Rightarrow> Operation" where
  "Operation_lock k x f =
     (Operation_init ''acquire'' k (PBytes x))\<lparr>acquire := Some x, flags := f\<rparr>"

definition Operation_unlock :: "string \<Rightarrow> string \<Rightarrow> int option \<Rightarrow> Operation" where
  "Operation_unlock k x f =
     (Operation_init ''release'' k (PBytes x))\<lparr>release := Some x, flags := f\<rparr>"

definition Operation_delete :: "string \<Rightarrow> Operation" where
  "Operation_delete k = Operation_init ''delete'' k PNone"

definition Operation_delete_cas :: "string \<Rightarrow> int \<Rightarrow> Operation" where
  "Operation_delete_cas k i = (Operation_init ''delete-cas'' k PNone)\<lparr>cas := Some i\<rparr>"

definition Operation_delete_tree :: "string \<Rightarrow> Operation" where
  "Operation_delete_tree p = (Operation_init ''delete-tree'' p PNone)\<lparr>recurse := Some True\<rparr>"

definition get_method :: "Operation \<Rightarrow> string" where
  "get_method op =
     (if verb op \<in> set [''delete-cas'', ''delete-tree'', ''delete''] then ''DELETE''
      else if verb op \<in> set [''set'', ''cas'', ''lock'', ''unlock''] then ''PUT''
      else ''GET'')"

text \<open>
  \<open>Operation.params_dict\<close>: the fields other than \<open>verb\<close>, \<open>key\<close> and \<open>value\<close>, in
  declaration order, that are not \<open>None\<close>.
\<close>

definition param :: "('a \<Rightarrow> pyval) \<Rightarrow> 'a option \<Rightarrow> pyval" where
  "param f x = (case x of None \<Rightarrow> PNone | Some y \<Rightarrow> f y)"

definition params_dict :: "Operation \<Rightarrow> (string \<times> pyval) list" where
  "params_dict op =
     filter (\<lambda>(k, v). v \<noteq> PNone)
       [(''raw'', param PBool (raw op)),
        (''separator'', param PStr (separator op)),
        (''keys'', param PBool (keys op)),
        (''recurse'', param PBool (recurse op)),
        (''index'', param PInt (index op)),
        (''wait'', param PStr (wait op)),
        (''flags'', param PInt (flags op)),
        (''cas'', param PInt (cas op)),
        (''acquire'', param PStr (acquire op)),
        (''release'', param PStr (release op))]"

section \<open>Requests and paths (\<open>_adapter.py\<close>)\<close>

text \<open>
  Python's \<open>str.replace(old, new)\<close>: one pass from the left over non-overlapping
  occurrences of \<open>old\<close>; an empty \<open>old\<close> matches before every character and at the end.
\<close>

function str_replace :: "string \<Rightarrow> string \<Rightarrow> string \<Rightarrow> string" where
  "str_replace old new s =
     (if old = [] then new @ concat (map (\<lambda>c. c # new) s)
      else if take (length old) s = old then new @ str_replace old new (drop (length old) s)
      else (case s of [] \<Rightarrow> [] | c # cs \<Rightarrow> c # str_replace old new cs))"
  by pat_completeness auto
termination
proof (relation "measure (\<lambda>(old, new, s). length s)")
  fix old new s :: string
  assume "old \<noteq> []" and "take (length old) s = old"
  then have "s \<noteq> []" by auto
  moreover have "0 < length old" using \<open>old \<noteq> []\<close> by simp
  ultimately show "((old, new, drop (length old) s), (old, new, s)) \<in> measure (\<lambda>(old, new, s). length s)"
    by simp
qed auto

declare str_replace.simps [simp del]

text \<open>\<open>path_join\<close> takes a string or a sequence of paths.\<close>

datatype path_arg = Str string | Seq "path_arg list"

fun path_join :: "path_arg \<Rightarrow> string" where
  "path_join (Seq ps) = str_replace ''//'' ''/'' (''/'' @ concat (map path_join ps))"
| "path_join (Str s) = str_replace ''//'' ''/'' (''/'' @ s)"

record Request =
  request_method :: string
  path :: string
  content :: pyval
  params :: "(string \<times> pyval) list"
  headers :: "(string \<times> pyval) list"
  json :: pyval

text \<open>\<open>Request(method, *paths, params=..., content=...)\<close>, as \<open>KV.apply\<close> calls it.\<close>

definition Request_init :: "string \<Rightarrow> string list \<Rightarrow> (string \<times> pyval) list \<Rightarrow> pyval \<Rightarrow> Request" where
  "Request_init m paths ps c =
     \<lparr>request_method = m, path = path_join (Seq (map Str paths)), content = c,
      params = filter (\<lambda>(k, v). v \<noteq> PNone) ps, headers = [], json = PNone\<rparr>"

record Response =
  response_method :: string
  response_path :: string
  status :: int
  response_content :: pyval
  response_headers :: "(string \<times> pyval) list"

section \<open>Status codes (\<open>_utils.py\<close>)\<close>

text \<open>
  What the HTTP client hands back: the status code, the body once read (parsed when the
  content type is JSON), the headers and the path of the final URL. A call that cannot
  be sent, read or parsed is an error of \<open>send\<close> itself.
\<close>

record HttpResponse =
  status_code :: int
  http_body :: pyval
  http_headers :: "(string \<times> pyval) list"
  url_path :: string

text \<open>
  The properties \<open>is_client_error\<close> and \<open>is_server_error\<close> of the HTTP client's
  response (a library outside the repository): the status code lies in 400..499,
  respectively in 500..599.
\<close>

definition is_client_error :: "HttpResponse \<Rightarrow> bool" where
  "is_client_error r = (400 \<le> status_code r \<and> status_code r \<le> 499)"

definition is_server_error :: "HttpResponse \<Rightarrow> bool" where
  "is_server_error r = (500 \<le> status_code r \<and> status_code r \<le> 599)"

text \<open>\<open>raise_for_status_error\<close>: \<open>Some e\<close> is the exception raised, \<open>None\<close> a plain return.\<close>

definition raise_for_status_error :: "HttpResponse \<Rightarrow> bool \<Rightarrow> error option" where
  "raise_for_status_error response allow_404 =
     (if is_client_error response then
        (if status_code response = 400 then Some BadRequest
         else if status_code response = 401 then Some ACLDisabled
         else if status_code response = 403 then Some Forbidden
         else if status_code response = 404 then
           (if \<not> allow_404 then Some NotFound else None)
         else if status_code response = 409 then Some ConflictError
         else Some RequestError)
      else if is_server_error response then Some ServerError
      else None)"

text \<open>
  \<open>Adapter.request\<close>, over the HTTP client's \<open>send\<close>: a 404 gives the body \<open>None\<close>, then
  the status check runs with its default \<open>allow_404 = True\<close>.
\<close>

definition Adapter_request :: "(Request \<Rightarrow> error + HttpResponse) \<Rightarrow> Request \<Rightarrow> error + Response" where
  "Adapter_request send req =
     (case send req of
        Inl e \<Rightarrow> Inl e
      | Inr http_response \<Rightarrow>
          (let body = (if status_code http_response = 404 then PNone else http_body http_response)
           in case raise_for_status_error http_response True of
                Some e \<Rightarrow> Inl e
              | None \<Rightarrow>
                  Inr \<lparr>response_method = request_method req, response_path = url_path http_response,
                       status = status_code http_response, response_content = body,
                       response_headers = http_headers http_response\<rparr>))"

section \<open>Decoding (\<open>kv.py\<close>, \<open>_utils.py\<close>)\<close>

text \<open>The character classes of the two patterns of \<open>camel_to_snake\<close>, on ASCII.\<close>

definition is_upper :: "char \<Rightarrow> bool" where
  "is_upper c = (65 \<le> (of_char c :: nat) \<and> (of_char c :: nat) \<le> 90)"

definition is_lower :: "char \<Rightarrow> bool" where
  "is_lower c = (97 \<le> (of_char c :: nat) \<and> (of_char c :: nat) \<le> 122)"

definition is_digit :: "char \<Rightarrow> bool" where
  "is_digit c = (48 \<le> (of_char c :: nat) \<and> (of_char c :: nat) \<le> 57)"

definition to_lower :: "char \<Rightarrow> char" where
  "to_lower c =
     (case map_of (zip ''ABCDEFGHIJKLMNOPQRSTUVWXYZ'' ''abcdefghijklmnopqrstuvwxyz'') c of
        None \<Rightarrow> c
      | Some l \<Rightarrow> l)"

text \<open>
  \<open>re.sub("(.)([A-Z][a-z]+)", r"\1_\2", name)\<close>: the leftmost match is one character
  other than a newline, a capital and the longest run of small letters (at least one);
  an underscore goes in after the first character and the search resumes after the match.
\<close>

function sub_cts_1 :: "string \<Rightarrow> string" where
  "sub_cts_1 [] = []"
| "sub_cts_1 (c # cs) =
     (case cs of
        u # l # rest \<Rightarrow>
          if c \<noteq> CHR 0x0A \<and> is_upper u \<and> is_lower l
          then c # CHR ''_'' # u # takeWhile is_lower (l # rest)
                 @ sub_cts_1 (dropWhile is_lower (l # rest))
          else c # sub_cts_1 cs
      | _ \<Rightarrow> c # sub_cts_1 cs)"
  by pat_completeness auto
termination
  by (relation "measure length")
     (auto simp: less_Suc_eq_le intro: le_trans [OF length_dropWhile_le])

text \<open>\<open>re.sub("([a-z0-9])([A-Z])", r"\1_\2", name)\<close>.\<close>

fun sub_cts_2 :: "string \<Rightarrow> string" where
  "sub_cts_2 (a # b # cs) =
     (if (is_lower a \<or> is_digit a) \<and> is_upper b then a # CHR ''_'' # b # sub_cts_2 cs
      else a # sub_cts_2 (b # cs))"
| "sub_cts_2 cs = cs"

definition camel_to_snake :: "string \<Rightarrow> string" where
  "camel_to_snake name = map to_lower (sub_cts_2 (sub_cts_1 name))"

text \<open>
  A dict comprehension \<open>{f(k): v for k, v in o.items()}\<close>: a key met again keeps its place
  and takes the later value.
\<close>

definition dict_comp :: "(string \<Rightarrow> string) \<Rightarrow> (string \<times> pyval) list \<Rightarrow> (string \<times> pyval) list" where
  "dict_comp f items = fold (\<lambda>(k, v) d. AList.update (f k) v d) items []"

definition Record_fields :: "string list" where
  "Record_fields =
     [''key'', ''create_index'', ''modify_index'', ''lock_index'', ''flags'', ''value'', ''session'']"

text \<open>
  \<open>Record(**kwargs)\<close>: a keyword that is no field, or a missing \<open>key\<close>, is a
  \<open>TypeError\<close>; the other fields have defaults.
\<close>

definition kwarg :: "(string \<times> pyval) list \<Rightarrow> string \<Rightarrow> pyval \<Rightarrow> pyval" where
  "kwarg kwargs name dflt = (case map_of kwargs name of None \<Rightarrow> dflt | Some v \<Rightarrow> v)"

definition Record_init :: "(string \<times> pyval) list \<Rightarrow> error + pyval Record" where
  "Record_init kwargs =
     (if \<not> list_all (\<lambda>(k, v). k \<in> set Record_fields) kwargs then Inl TypeError
      else case map_of kwargs ''key'' of
             None \<Rightarrow> Inl TypeError
           | Some k \<Rightarrow>
               Inr (Record k
                     (kwarg kwargs ''create_index'' (PInt 0))
                     (kwarg kwargs ''modify_index'' (PInt 0))
                     (kwarg kwargs ''lock_index'' (PInt 0))
                     (kwarg kwargs ''flags'' (PInt 0))
                     (kwarg kwargs ''value'' (PStr []))
                     (kwarg kwargs ''session'' (PStr []))))"

fun is_str :: "pyval \<Rightarrow> bool" where
  "is_str (PStr s) = True"
| "is_str v = False"

fun is_mapping :: "pyval \<Rightarrow> bool" where
  "is_mapping (PDict d) = True"
| "is_mapping v = False"

fun dict_items :: "pyval \<Rightarrow> (string \<times> pyval) list" where
  "dict_items (PDict d) = d"
| "dict_items v = []"

text \<open>A list comprehension whose element expression may raise: the first error wins.\<close>

fun collect :: "(error + 'a) list \<Rightarrow> error + 'a list" where
  "collect [] = Inr []"
| "collect (Inl e # rs) = Inl e"
| "collect (Inr x # rs) = (case collect rs of Inl e \<Rightarrow> Inl e | Inr xs \<Rightarrow> Inr (x # xs))"

definition decode_content :: "Operation \<Rightarrow> pyval \<Rightarrow> error + pyval" where
  "decode_content op c =
     (case c of
        PBool b \<Rightarrow> Inr c
      | PStr s \<Rightarrow> Inr c
      | PBytes s \<Rightarrow> Inr c
      | PList os \<Rightarrow>
          if list_all is_str os then Inr (PList os)
          else if list_all is_mapping os then
            (case collect (map (\<lambda>obj. Record_init (dict_comp camel_to_snake (dict_items obj))) os) of
               Inl e \<Rightarrow> Inl e
             | Inr content_list \<Rightarrow>
                 if verb op \<in> set [''get'', ''watch''] then
                   (case content_list of
                      [] \<Rightarrow> Inr (PList (map PRecord content_list))
                    | r # rs \<Rightarrow> Inr (PRecord r))
                 else Inr (PList (map PRecord content_list)))
          else Inr PNone
      | _ \<Rightarrow> Inr PNone)"

section \<open>The facade (\<open>kv.py\<close>)\<close>

text \<open>
  A facade holds its transport and an optional prefix. The transport is seen through
  the HTTP client's \<open>send\<close>, the only part of it the facade's calls depend on.
\<close>

record KV =
  adapter :: "Request \<Rightarrow> error + HttpResponse"
  prefix_kv :: "string option"

text \<open>
  The first line of \<open>KV.apply\<close>, \<open>key = self.prefix or "" + op.key\<close>. Python reads it as
  \<open>self.prefix or ("" + op.key)\<close>: a prefix that is neither \<open>None\<close> nor empty is the
  whole value.
\<close>

definition apply_key :: "KV \<Rightarrow> Operation \<Rightarrow> string" where
  "apply_key self op =
     (case prefix_kv self of
        None \<Rightarrow> [] @ key op
      | Some p \<Rightarrow> if p = [] then [] @ key op else p)"

definition apply_request :: "KV \<Rightarrow> Operation \<Rightarrow> Request" where
  "apply_request self op =
     Request_init (get_method op) [''kv'', apply_key self op] (params_dict op) (val op)"

definition KV_apply :: "KV \<Rightarrow> Operation \<Rightarrow> pyval \<Rightarrow> error + pyval" where
  "KV_apply self op dflt =
     (case Adapter_request (adapter self) (apply_request self op) of
        Inl e \<Rightarrow> Inl e
      | Inr response \<Rightarrow>
          if response_content response = PNone then
            (if dflt = PNone then Inl (KeyError (key op)) else Inr dflt)
          else decode_content op (response_content response))"

text \<open>
  Facades are objects: the store is the list of the facades allocated so far, a
  reference is an index into it. The setter of \<open>KV.prefix\<close> writes the object in place;
  \<open>KV.prefixed\<close> allocates a new one and yields its reference.
\<close>

type_synonym store = "KV list"

definition KV_set_prefix :: "store \<Rightarrow> nat \<Rightarrow> string option \<Rightarrow> store" where
  "KV_set_prefix h self p = h[self := (h ! self)\<lparr>prefix_kv := p\<rparr>]"

definition KV_prefixed :: "store \<Rightarrow> nat \<Rightarrow> string \<Rightarrow> store \<times> nat" where
  "KV_prefixed h self p = (h @ [\<lparr>adapter = adapter (h ! self), prefix_kv = Some p\<rparr>], length h)"

section \<open>Flat mapping to tree (\<open>_utils.py\<close>)\<close>

text \<open>
  A nested mapping: a value is a leaf or a mapping from segments to values. Mappings
  are compared as Python compares dicts, by their entries. Leaf values are the strings
  (or \<open>None\<close>) of \<open>KV.get_tree\<close>: values that are not mappings and cannot be assigned into.
\<close>

datatype ('k, 'v) tree = Leaf 'v | Node "'k \<Rightarrow> ('k, 'v) tree option"

text \<open>
  The body of the outer loop for one entry. \<open>current_dict.setdefault(prefix_key, typ())\<close>
  walks into the value stored at the segment, or into a new empty mapping; the last
  segment is assigned. On an empty tuple \<open>key_tuple[-1]\<close> is an \<open>IndexError\<close>. When the walk
  has stepped onto a leaf, the next \<open>setdefault\<close> is an \<open>AttributeError\<close> and the final
  item assignment a \<open>TypeError\<close>.
\<close>

fun assign_path :: "'k list \<Rightarrow> 'v \<Rightarrow> ('k \<Rightarrow> ('k, 'v) tree option) \<Rightarrow> error + ('k \<Rightarrow> ('k, 'v) tree option)" where
  "assign_path [] v d = Inl IndexError"
| "assign_path [k] v d = Inr (d(k \<mapsto> Leaf v))"
| "assign_path (k # k' # ks) v d =
     (case (case d k of None \<Rightarrow> Node Map.empty | Some t \<Rightarrow> t) of
        Leaf x \<Rightarrow> Inl (if ks = [] then TypeError else AttributeError)
      | Node sub \<Rightarrow>
          (case assign_path (k' # ks) v sub of
             Inl e \<Rightarrow> Inl e
           | Inr sub' \<Rightarrow> Inr (d(k \<mapsto> Node sub'))))"

fun flatdict_loop :: "('k list \<times> 'v) list \<Rightarrow> ('k \<Rightarrow> ('k, 'v) tree option) \<Rightarrow> error + ('k \<Rightarrow> ('k, 'v) tree option)" where
  "flatdict_loop [] result = Inr result"
| "flatdict_loop ((key_tuple, v) # items) result =
     (case assign_path key_tuple v result of
        Inl e \<Rightarrow> Inl e
      | Inr result' \<Rightarrow> flatdict_loop items result')"

text \<open>\<open>flatdict_to_dict\<close>, on the entries of \<open>dct.items()\<close> in the order they are met.\<close>

definition flatdict_to_dict :: "('k list \<times> 'v) list \<Rightarrow> error + ('k \<Rightarrow> ('k, 'v) tree option)" where
  "flatdict_to_dict items = flatdict_loop items Map.empty"

text \<open>
  Reading a nested mapping: what sits at a path, the leaf value there if any, and
  whether a mapping sits there.
\<close>

fun lookup_path :: "('k, 'v) tree \<Rightarrow> 'k list \<Rightarrow> ('k, 'v) tree option" where
  "lookup_path t [] = Some t"
| "lookup_path (Leaf x) (k # ks) = None"
| "lookup_path (Node d) (k # ks) = (case d k of None \<Rightarrow> None | Some t \<Rightarrow> lookup_path t ks)"

definition leaf_at :: "('k \<Rightarrow> ('k, 'v) tree option) \<Rightarrow> 'k list \<Rightarrow> 'v option" where
  "leaf_at d p = (case lookup_path (Node d) p of Some (Leaf x) \<Rightarrow> Some x | _ \<Rightarrow> None)"

definition node_at :: "('k \<Rightarrow> ('k, 'v) tree option) \<Rightarrow> 'k list \<Rightarrow> bool" where
  "node_at d p = (case lookup_path (Node d) p of Some (Node sub) \<Rightarrow> True | _ \<Rightarrow> False)"

section \<open>Notions used to state the properties\<close>

subsection \<open>Slashes in a path\<close>

text \<open>
  \<open>squeeze\<close> collapses every run of slashes to one slash; \<open>slash_run\<close> is the length
  of the run a string starts with and \<open>max_slash_run\<close> the length of its longest run.
\<close>

fun squeeze :: "string \<Rightarrow> string" where
  "squeeze (a # b # cs) =
     (if a = CHR ''/'' \<and> b = CHR ''/'' then squeeze (b # cs) else a # squeeze (b # cs))"
| "squeeze cs = cs"

fun slash_run :: "string \<Rightarrow> nat" where
  "slash_run [] = 0"
| "slash_run (c # cs) = (if c = CHR ''/'' then Suc (slash_run cs) else 0)"

fun max_slash_run :: "string \<Rightarrow> nat" where
  "max_slash_run [] = 0"
| "max_slash_run (c # cs) = max (slash_run (c # cs)) (max_slash_run cs)"

text \<open>
  The pass \<open>replace("//", "/")\<close> written by recursion on the string, two characters at a
  time; it is shown below to be \<open>str_replace ''//'' ''/''\<close>.
\<close>

fun halve_slashes :: "string \<Rightarrow> string" where
  "halve_slashes (a # b # cs) =
     (if a = CHR ''/'' \<and> b = CHR ''/'' then CHR ''/'' # halve_slashes cs
      else a # halve_slashes (b # cs))"
| "halve_slashes cs = cs"

subsection \<open>Key records\<close>

text \<open>
  A key-record mapping is a mapping whose names, once translated, are fields of
  \<open>Record\<close> and include \<open>key\<close>. \<open>wire_field\<close> reads the value a mapping gives for a
  translated name (the last one, should two names translate alike), \<open>to_record\<close> is
  the record with each field read that way.
\<close>

definition key_record :: "(string \<times> pyval) list \<Rightarrow> bool" where
  "key_record d =
     (list_all (\<lambda>(k, v). camel_to_snake k \<in> set Record_fields) d
      \<and> list_ex (\<lambda>(k, v). camel_to_snake k = ''key'') d)"

definition wire_field :: "(string \<times> pyval) list \<Rightarrow> string \<Rightarrow> pyval \<Rightarrow> pyval" where
  "wire_field d name dflt =
     (case map_of (rev (map (\<lambda>(k, v). (camel_to_snake k, v)) d)) name of
        None \<Rightarrow> dflt
      | Some v \<Rightarrow> v)"

definition to_record :: "(string \<times> pyval) list \<Rightarrow> pyval Record" where
  "to_record d =
     Record (wire_field d ''key'' PNone)
       (wire_field d ''create_index'' (PInt 0))
       (wire_field d ''modify_index'' (PInt 0))
       (wire_field d ''lock_index'' (PInt 0))
       (wire_field d ''flags'' (PInt 0))
       (wire_field d ''value'' (PStr []))
       (wire_field d ''session'' (PStr []))"

subsection \<open>What sits at a path of a nested mapping\<close>

datatype 'v kind = Absent | IsNode | IsLeaf 'v

fun kind_of :: "('k, 'v) tree \<Rightarrow> 'v kind" where
  "kind_of (Leaf x) = IsLeaf x"
| "kind_of (Node d) = IsNode"

definition kind_at :: "('k \<Rightarrow> ('k, 'v) tree option) \<Rightarrow> 'k list \<Rightarrow> 'v kind" where
  "kind_at d p = (case lookup_path (Node d) p of None \<Rightarrow> Absent | Some t \<Rightarrow> kind_of t)"

text \<open>
  What the entries of a flat mapping call for at a path: the leaf of the entry with that
  tuple, a mapping at the root and at every proper prefix of a tuple, nothing elsewhere.
\<close>

definition expected_kind :: "('k list \<times> 'v) list \<Rightarrow> 'k list \<Rightarrow> 'v kind" where
  "expected_kind items r =
     (case map_of items r of
        Some v \<Rightarrow> IsLeaf v
      | None \<Rightarrow> if r = [] \<or> list_ex (\<lambda>(p, v). strict_prefix r p) items then IsNode else Absent)"

subsection \<open>Transports for the examples\<close>

definition http :: "int \<Rightarrow> HttpResponse" where
  "http s = \<lparr>status_code = s, http_body = PBytes [], http_headers = [], url_path = ''/v1/kv/k''\<rparr>"

definition send_404 :: "Request \<Rightarrow> error + HttpResponse" where
  "send_404 req =
     Inr \<lparr>status_code = 404, http_body = PBytes [], http_headers = [], url_path = path req\<rparr>"

definition send_true :: "Request \<Rightarrow> error + HttpResponse" where
  "send_true req =
     Inr \<lparr>status_code = 200, http_body = PBool True, http_headers = [], url_path = path req\<rparr>"

section \<open>Verb to method\<close>

text \<open>
  C2 (evaluation of the code where the claim fails). The claim takes the operations built
  by \<open>lock\<close> and \<open>unlock\<close> to be sent with PUT. The factories give them the verbs
  \<open>acquire\<close> and \<open>release\<close>, while \<open>_get_method\<close> tests for the verbs \<open>lock\<close> and
  \<open>unlock\<close>: both operations fall through to GET. The delete verbs and \<open>set\<close>,
  \<open>cas\<close> behave as claimed.
\<close>

theorem get_method_lock_unlock_is_GET:
  "get_method (Operation_lock ''leader'' ''sess-1'' None) = ''GET''
   \<and> get_method (Operation_unlock ''leader'' ''sess-1'' None) = ''GET''
   \<and> get_method (Operation_set ''k'' (PBytes ''v'') None) = ''PUT''
   \<and> get_method (Operation_set_cas ''k'' (PBytes ''v'') 7 None) = ''PUT''
   \<and> get_method (Operation_delete ''k'') = ''DELETE''
   \<and> get_method (Operation_delete_cas ''k'' 7) = ''DELETE''
   \<and> get_method (Operation_delete_tree ''k'') = ''DELETE''
   \<and> get_method (Operation_get ''k'' None) = ''GET''"
  by (simp add: get_method_def Operation_lock_def Operation_unlock_def Operation_set_def
      Operation_set_cas_def Operation_delete_def Operation_delete_cas_def
      Operation_delete_tree_def Operation_get_def Operation_init_def)

section \<open>Tree reads\<close>

text \<open>
  C4 (counterexample). The claim has both tree factories set the wire flag \<open>recurse\<close>.
  \<open>list_tree\<close> leaves it unset: the operation it builds has no \<open>recurse\<close> field and
  its request parameters are \<open>separator\<close> and \<open>keys\<close> only.
\<close>

theorem list_tree_recurse_unset:
  "recurse (Operation_list_tree ''a/b'' True ''/'') = None
   \<and> params_dict (Operation_list_tree ''a/b'' True ''/'')
       = [(''separator'', PStr []), (''keys'', PBool True)]"
  by (simp add: Operation_list_tree_def Operation_init_def params_dict_def param_def)

text \<open>
  C4 (amended). For every prefix, separator and value of the \<open>recurse\<close> argument:
  \<open>get_tree\<close> builds an operation whose wire flag \<open>recurse\<close> is true whatever the
  argument; \<open>list_tree\<close> builds one with \<open>keys\<close> true and \<open>recurse\<close> unset; both carry
  the empty separator when the argument is true and the caller's separator otherwise.
  The request parameters are exactly those fields.
\<close>

theorem tree_factories_wire_flags:
  "recurse (Operation_get_tree p r sep) = Some True
   \<and> separator (Operation_get_tree p r sep) = Some (if r then [] else sep)
   \<and> params_dict (Operation_get_tree p r sep)
       = [(''separator'', PStr (if r then [] else sep)), (''recurse'', PBool True)]
   \<and> recurse (Operation_list_tree p r sep) = None
   \<and> keys (Operation_list_tree p r sep) = Some True
   \<and> separator (Operation_list_tree p r sep) = Some (if r then [] else sep)
   \<and> params_dict (Operation_list_tree p r sep)
       = [(''separator'', PStr (if r then [] else sep)), (''keys'', PBool True)]"
  by (simp add: Operation_get_tree_def Operation_list_tree_def Operation_init_def
      params_dict_def param_def)

section \<open>The prefix of a facade\<close>

text \<open>
  C1 (evaluation of the code where the claim fails). A facade with prefix \<open>svc/\<close>
  applying \<open>get("config")\<close> computes the key \<open>svc/\<close>, not \<open>svc/config\<close>, and requests the
  path \<open>/kv/svc/\<close>: in \<open>self.prefix or "" + op.key\<close> the sum binds tighter than
  \<open>or\<close>, so a non-empty prefix replaces the key. Without a prefix the key is the
  operation's.
\<close>

theorem apply_key_drops_operation_key:
  "apply_key \<lparr>adapter = a, prefix_kv = Some ''svc/''\<rparr> (Operation_get ''config'' None) = ''svc/''
   \<and> path (apply_request \<lparr>adapter = a, prefix_kv = Some ''svc/''\<rparr> (Operation_get ''config'' None))
       = ''/kv/svc/''
   \<and> apply_key \<lparr>adapter = a, prefix_kv = None\<rparr> (Operation_get ''config'' None) = ''config''"
  by (simp add: apply_key_def apply_request_def Request_init_def Operation_get_def
      Operation_init_def str_replace.simps)

text \<open>
  C10. For a facade \<open>self\<close> of the store, whatever its own prefix, \<open>prefixed(p)\<close>
  allocates a new facade, distinct from \<open>self\<close>, whose prefix is exactly \<open>p\<close> and whose
  transport is that of \<open>self\<close>; every facade already in the store, \<open>self\<close> included,
  is left as it was, so the prefix of \<open>self\<close> is unchanged.
\<close>

theorem KV_prefixed_frame:
  assumes "self < length h" and "KV_prefixed h self p = (h', new)"
  shows "new \<noteq> self \<and> new < length h'
     \<and> prefix_kv (h' ! new) = Some p
     \<and> adapter (h' ! new) = adapter (h ! self)
     \<and> prefix_kv (h' ! self) = prefix_kv (h ! self)
     \<and> (\<forall>r < length h. h' ! r = h ! r)"
  using assms by (auto simp: KV_prefixed_def nth_append)

text \<open>
  C10 (witness). A store with one facade of prefix \<open>svc/\<close>: \<open>prefixed("db/")\<close> yields
  the new reference 1 with prefix \<open>db/\<close> (not \<open>svc/db/\<close>) and the same transport, and
  the facade at reference 0 still has prefix \<open>svc/\<close>.
\<close>

theorem KV_prefixed_frame_witness:
  "(0::nat) < length [\<lparr>adapter = send_404, prefix_kv = Some ''svc/''\<rparr>]
   \<and> snd (KV_prefixed [\<lparr>adapter = send_404, prefix_kv = Some ''svc/''\<rparr>] 0 ''db/'') = 1
   \<and> prefix_kv (fst (KV_prefixed [\<lparr>adapter = send_404, prefix_kv = Some ''svc/''\<rparr>] 0 ''db/'') ! 1)
       = Some ''db/''
   \<and> adapter (fst (KV_prefixed [\<lparr>adapter = send_404, prefix_kv = Some ''svc/''\<rparr>] 0 ''db/'') ! 1)
       = send_404
   \<and> prefix_kv (fst (KV_prefixed [\<lparr>adapter = send_404, prefix_kv = Some ''svc/''\<rparr>] 0 ''db/'') ! 0)
       = Some ''svc/''"
proof -
  let ?h = "[\<lparr>adapter = send_404, prefix_kv = Some ''svc/''\<rparr>]"
  have l: "(0::nat) < length ?h" by simp
  have e: "KV_prefixed ?h 0 ''db/'' = (fst (KV_prefixed ?h 0 ''db/''), 1)"
    by (simp add: KV_prefixed_def)
  show ?thesis using KV_prefixed_frame [OF l e] e by (simp add: KV_prefixed_def)
qed

section \<open>Status codes\<close>

text \<open>
  C6. The status check raises \<open>BadRequest\<close> on 400, \<open>ACLDisabled\<close> on 401,
  \<open>Forbidden\<close> on 403, \<open>ConflictError\<close> on 409, \<open>RequestError\<close> on every other 4xx
  status but 404, \<open>ServerError\<close> on every 5xx status, and nothing on a 404 when a 404
  is allowed.
\<close>

theorem raise_for_status_error_classes:
  "(status_code r = 400 \<longrightarrow> raise_for_status_error r a = Some BadRequest)
   \<and> (status_code r = 401 \<longrightarrow> raise_for_status_error r a = Some ACLDisabled)
   \<and> (status_code r = 403 \<longrightarrow> raise_for_status_error r a = Some Forbidden)
   \<and> (status_code r = 409 \<longrightarrow> raise_for_status_error r a = Some ConflictError)
   \<and> (400 \<le> status_code r \<and> status_code r \<le> 499
        \<and> status_code r \<notin> {400, 401, 403, 404, 409}
        \<longrightarrow> raise_for_status_error r a = Some RequestError)
   \<and> (500 \<le> status_code r \<and> status_code r \<le> 599
        \<longrightarrow> raise_for_status_error r a = Some ServerError)
   \<and> (status_code r = 404 \<longrightarrow> raise_for_status_error r True = None)"
  by (simp add: raise_for_status_error_def is_client_error_def is_server_error_def)

text \<open>
  C6 (witness). One response per class: 400, 401, 403, 409, 418 (another 4xx), 503 and
  an allowed 404.
\<close>

theorem raise_for_status_error_classes_witness:
  "raise_for_status_error (http 400) True = Some BadRequest
   \<and> raise_for_status_error (http 401) True = Some ACLDisabled
   \<and> raise_for_status_error (http 403) True = Some Forbidden
   \<and> raise_for_status_error (http 409) True = Some ConflictError
   \<and> raise_for_status_error (http 418) True = Some RequestError
   \<and> raise_for_status_error (http 503) True = Some ServerError
   \<and> raise_for_status_error (http 404) True = None"
  using raise_for_status_error_classes [of "http 400" True]
    raise_for_status_error_classes [of "http 401" True]
    raise_for_status_error_classes [of "http 403" True]
    raise_for_status_error_classes [of "http 409" True]
    raise_for_status_error_classes [of "http 418" True]
    raise_for_status_error_classes [of "http 503" True]
    raise_for_status_error_classes [of "http 404" True]
  by (simp add: http_def)

section \<open>Missing keys\<close>

text \<open>
  C3 (counterexample). Against a transport that answers 404, \<open>get("missing")\<close> without
  a default raises the built-in \<open>KeyError\<close> with the operation's key, not the library's
  \<open>NotFound\<close>.
\<close>

theorem KV_apply_missing_raises_KeyError:
  "KV_apply \<lparr>adapter = send_404, prefix_kv = None\<rparr> (Operation_get ''missing'' None) PNone
     = Inl (KeyError ''missing'')
   \<and> KV_apply \<lparr>adapter = send_404, prefix_kv = None\<rparr> (Operation_get ''missing'' None) PNone
     \<noteq> Inl NotFound"
  by (simp add: KV_apply_def Adapter_request_def send_404_def raise_for_status_error_def
      is_client_error_def Operation_get_def Operation_init_def)

text \<open>
  C3 (amended). A 404 from the HTTP client reaches the facade as a response whose content
  is \<open>None\<close>. For every operation applied through the facade whose transport returns a
  response: if the content is \<open>None\<close> and no default was supplied (the default is
  \<open>None\<close>), the call raises \<open>KeyError\<close> with the operation's key; if the content is
  \<open>None\<close> and a default was supplied, the default is returned; otherwise the decoded
  content is returned, with no substitution.
\<close>

theorem KV_apply_absent:
  "(adapter self (apply_request self op) = Inr r \<and> status_code r = 404
      \<longrightarrow> (\<exists>response. Adapter_request (adapter self) (apply_request self op) = Inr response
             \<and> response_content response = PNone))
   \<and> (Adapter_request (adapter self) (apply_request self op) = Inr response
        \<and> response_content response = PNone \<and> dflt = PNone
      \<longrightarrow> KV_apply self op dflt = Inl (KeyError (key op)))
   \<and> (Adapter_request (adapter self) (apply_request self op) = Inr response
        \<and> response_content response = PNone \<and> dflt \<noteq> PNone
      \<longrightarrow> KV_apply self op dflt = Inr dflt)
   \<and> (Adapter_request (adapter self) (apply_request self op) = Inr response
        \<and> response_content response \<noteq> PNone
      \<longrightarrow> KV_apply self op dflt = decode_content op (response_content response))"
  by (auto simp: KV_apply_def Adapter_request_def raise_for_status_error_def is_client_error_def)

text \<open>
  C3 (witness). Against the transport that answers 404, \<open>get("missing")\<close> raises
  \<open>KeyError("missing")\<close> without a default and returns \<open>"fallback"\<close> with that default;
  against a transport that answers \<open>true\<close>, \<open>delete("k")\<close> returns \<open>true\<close> although a
  default was given.
\<close>

theorem KV_apply_absent_witness:
  "KV_apply \<lparr>adapter = send_404, prefix_kv = None\<rparr> (Operation_get ''missing'' None) PNone
     = Inl (KeyError ''missing'')
   \<and> KV_apply \<lparr>adapter = send_404, prefix_kv = None\<rparr> (Operation_get ''missing'' None)
       (PStr ''fallback'')
     = Inr (PStr ''fallback'')
   \<and> KV_apply \<lparr>adapter = send_true, prefix_kv = None\<rparr> (Operation_delete ''k'') (PStr ''fallback'')
     = Inr (PBool True)"
proof -
  let ?kv = "\<lparr>adapter = send_404, prefix_kv = None\<rparr>"
  let ?kv' = "\<lparr>adapter = send_true, prefix_kv = None\<rparr>"
  let ?get = "Operation_get ''missing'' None"
  let ?del = "Operation_delete ''k''"
  let ?r = "\<lparr>response_method = ''GET'', response_path = ''/kv/missing'', status = 404,
             response_content = PNone, response_headers = []\<rparr>"
  let ?r' = "\<lparr>response_method = ''DELETE'', response_path = ''/kv/k'', status = 200,
             response_content = PBool True, response_headers = []\<rparr>"
  have a: "Adapter_request (adapter ?kv) (apply_request ?kv ?get) = Inr ?r"
    by (simp add: Adapter_request_def send_404_def raise_for_status_error_def is_client_error_def
        apply_request_def apply_key_def Request_init_def get_method_def Operation_get_def
        Operation_init_def str_replace.simps)
  have b: "Adapter_request (adapter ?kv') (apply_request ?kv' ?del) = Inr ?r'"
    by (simp add: Adapter_request_def send_true_def raise_for_status_error_def is_client_error_def
        is_server_error_def apply_request_def apply_key_def Request_init_def get_method_def
        Operation_delete_def Operation_init_def str_replace.simps)
  show ?thesis
    using KV_apply_absent [of ?kv ?get _ ?r PNone]
      KV_apply_absent [of ?kv ?get _ ?r "PStr ''fallback''"]
      KV_apply_absent [of ?kv' ?del _ ?r' "PStr ''fallback''"] a b
    by (simp add: decode_content_def Operation_get_def Operation_delete_def Operation_init_def)
qed

section \<open>Request paths\<close>

lemma str_replace_slashes: "str_replace ''//'' ''/'' s = halve_slashes s"
proof (induction s rule: halve_slashes.induct)
  case (1 a b cs)
  then show ?case by (subst str_replace.simps) auto
qed (simp_all add: str_replace.simps)

lemma halve_slashes_run:
  "slash_run (halve_slashes s) \<le> (slash_run s + 1) div 2
   \<and> max_slash_run (halve_slashes s) \<le> (max_slash_run s + 1) div 2"
  by (induction s rule: halve_slashes.induct) (auto simp: max_def)

lemma squeeze_Cons:
  "squeeze (c # t) =
     (case squeeze t of
        [] \<Rightarrow> [c]
      | d # u \<Rightarrow> if c = CHR ''/'' \<and> d = CHR ''/'' then d # u else c # d # u)"
proof -
  have hd: "\<exists>u. squeeze (b # cs) = b # u" for b cs
    by (induction "b # cs" arbitrary: b cs rule: squeeze.induct) auto
  show ?thesis
  proof (cases t)
    case Nil
    then show ?thesis by simp
  next
    case (Cons b cs)
    with hd [of b cs] show ?thesis by auto
  qed
qed

lemma squeeze_halve_slashes: "squeeze (halve_slashes s) = squeeze s"
proof (induction s rule: halve_slashes.induct)
  case (1 a b cs)
  show ?case
  proof (cases "a = CHR ''/'' \<and> b = CHR ''/''")
    case True
    with 1 have "squeeze (halve_slashes cs) = squeeze cs" by simp
    then have "squeeze (CHR ''/'' # halve_slashes cs) = squeeze (CHR ''/'' # cs)"
      by (simp only: squeeze_Cons [of _ "halve_slashes cs"] squeeze_Cons [of _ cs])
    with True show ?thesis by simp
  next
    case False
    with 1 have "squeeze (halve_slashes (b # cs)) = squeeze (b # cs)" by simp
    then have "squeeze (a # halve_slashes (b # cs)) = squeeze (a # b # cs)"
      by (simp only: squeeze_Cons [of _ "halve_slashes (b # cs)"] squeeze_Cons [of _ "b # cs"])
    moreover have "halve_slashes (a # b # cs) = a # halve_slashes (b # cs)"
      using False by auto
    ultimately show ?thesis by (simp only:)
  qed
qed simp_all

lemma squeeze_id: "max_slash_run s \<le> 1 \<Longrightarrow> squeeze s = s"
  by (induction s rule: squeeze.induct) (auto split: if_splits)

lemma halve_slashes_id: "max_slash_run s \<le> 1 \<Longrightarrow> halve_slashes s = s"
  by (induction s rule: halve_slashes.induct) (auto split: if_splits)

lemma squeeze_run: "slash_run (squeeze s) \<le> 1 \<and> max_slash_run (squeeze s) \<le> 1"
proof (induction s rule: squeeze.induct)
  case (1 a b cs)
  have hd: "\<exists>u. squeeze (b # cs) = b # u"
    by (cases "squeeze (b # cs)") (auto simp: squeeze_Cons split: list.splits if_splits)
  with 1 show ?case by (auto split: if_splits)
qed auto

lemma twice_halved:
  assumes "max_slash_run s \<le> 4"
  shows "halve_slashes (halve_slashes s) = squeeze s"
proof -
  have "max_slash_run (halve_slashes s) \<le> 2"
    using halve_slashes_run [of s] assms by arith
  then have "max_slash_run (halve_slashes (halve_slashes s)) \<le> 1"
    using halve_slashes_run [of "halve_slashes s"] by arith
  then have "halve_slashes (halve_slashes s) = squeeze (halve_slashes (halve_slashes s))"
    by (simp add: squeeze_id)
  then show ?thesis by (simp add: squeeze_halve_slashes)
qed

lemma request_path_eq:
  "path (Request_init m [''kv'', k] ps c) = ''/kv'' @ halve_slashes (halve_slashes (CHR ''/'' # k))"
proof -
  have "\<exists>t. halve_slashes (CHR ''/'' # k) = CHR ''/'' # t"
    by (cases k) auto
  then obtain t where t: "halve_slashes (CHR ''/'' # k) = CHR ''/'' # t" by blast
  show ?thesis
    by (simp add: Request_init_def str_replace_slashes t)
qed

text \<open>
  C9 (counterexample). The key \<open>a/////b\<close> has a run of five slashes; the path built
  for it is \<open>/kv/a//b\<close>, where a doubled slash remains.
\<close>

theorem request_path_long_run:
  "path (Request_init ''GET'' [''kv'', ''a/////b''] [] PNone) = ''/kv/a//b''
   \<and> max_slash_run (path (Request_init ''GET'' [''kv'', ''a/////b''] [] PNone)) = 2"
  by (simp add: request_path_eq)

text \<open>
  C9 (amended). For every key \<open>k\<close> the request path starts with \<open>/kv/\<close>. When no run
  of more than four slashes occurs in \<open>"/" + k\<close> (no run of more than four in \<open>k\<close>, and
  at most three at its start), the path is \<open>/kv\<close> followed by \<open>"/" + k\<close> with every run
  of slashes collapsed to one, and no doubled slash is left in it; when \<open>k\<close> neither
  starts with a slash nor holds a doubled one, the path is \<open>/kv/\<close> followed by \<open>k\<close>.
\<close>

theorem request_path_slashes:
  "(\<exists>rest. path (Request_init m [''kv'', k] ps c) = ''/kv/'' @ rest)
   \<and> (max_slash_run (''/'' @ k) \<le> 4 \<longrightarrow>
        path (Request_init m [''kv'', k] ps c) = ''/kv'' @ squeeze (''/'' @ k)
        \<and> max_slash_run (path (Request_init m [''kv'', k] ps c)) \<le> 1)
   \<and> (max_slash_run (''/'' @ k) \<le> 1 \<longrightarrow> path (Request_init m [''kv'', k] ps c) = ''/kv/'' @ k)"
proof -
  let ?p = "path (Request_init m [''kv'', k] ps c)"
  have lead: "\<exists>t. halve_slashes (CHR ''/'' # s) = CHR ''/'' # t" for s
    by (cases s) auto
  obtain t where "halve_slashes (CHR ''/'' # k) = CHR ''/'' # t" using lead by blast
  moreover obtain t' where "halve_slashes (CHR ''/'' # t) = CHR ''/'' # t'" using lead by blast
  ultimately have a: "\<exists>rest. ?p = ''/kv/'' @ rest" by (simp add: request_path_eq)
  have b: "?p = ''/kv'' @ squeeze (''/'' @ k) \<and> max_slash_run ?p \<le> 1"
    if "max_slash_run (''/'' @ k) \<le> 4"
  proof -
    have e: "?p = ''/kv'' @ squeeze (''/'' @ k)"
      using twice_halved [of "''/'' @ k"] that by (simp add: request_path_eq)
    obtain u where u: "squeeze (CHR ''/'' # k) = CHR ''/'' # u"
      by (cases "squeeze (CHR ''/'' # k)") (auto simp: squeeze_Cons split: list.splits if_splits)
    have "max_slash_run (CHR ''/'' # u) \<le> 1" "slash_run (CHR ''/'' # u) \<le> 1"
      using squeeze_run [of "CHR ''/'' # k"] u by simp_all
    then have "max_slash_run (''/kv'' @ squeeze (''/'' @ k)) \<le> 1"
      using u by simp
    with e show ?thesis by simp
  qed
  have c: "?p = ''/kv/'' @ k" if "max_slash_run (''/'' @ k) \<le> 1"
    using b that squeeze_id [of "''/'' @ k"] by simp
  from a b c show ?thesis by blast
qed

text \<open>
  C9 (witness). The key \<open>svc//a///b\<close>, with runs of two and three slashes, gives
  \<open>/kv/svc/a/b\<close>; the key \<open>svc/config\<close> gives \<open>/kv/svc/config\<close>.
\<close>

theorem request_path_slashes_witness:
  "max_slash_run (''/'' @ ''svc//a///b'') \<le> 4
   \<and> path (Request_init ''GET'' [''kv'', ''svc//a///b''] [] PNone) = ''/kv/svc/a/b''
   \<and> max_slash_run (''/'' @ ''svc/config'') \<le> 1
   \<and> path (Request_init ''GET'' [''kv'', ''svc/config''] [] PNone) = ''/kv/svc/config''"
proof -
  have h1: "max_slash_run (''/'' @ ''svc//a///b'') \<le> 4" by simp
  have h2: "max_slash_run (''/'' @ ''svc/config'') \<le> 1" by simp
  from request_path_slashes [of "''GET''" "''svc//a///b''" "[]" PNone]
    request_path_slashes [of "''GET''" "''svc/config''" "[]" PNone] h1 h2
  show ?thesis by simp
qed

section \<open>Decoding records\<close>

lemma map_of_fold_update:
  "map_of (fold (\<lambda>(k, v) acc. AList.update (f k) v acc) d acc0)
     = map_of (rev (map (\<lambda>(k, v). (f k, v)) d) @ acc0)"
proof (induction d arbitrary: acc0)
  case Nil
  then show ?case by simp
next
  case (Cons a d)
  obtain k v where a: "a = (k, v)" by (cases a)
  show ?case
    by (simp add: a Cons.IH update_conv' map_add_def fun_eq_iff split: option.splits)
qed

lemma map_of_dict_comp:
  "map_of (dict_comp f d) = map_of (rev (map (\<lambda>(k, v). (f k, v)) d))"
  by (simp add: dict_comp_def map_of_fold_update)

lemma keys_dict_comp: "fst ` set (dict_comp f d) = (\<lambda>(k, v). f k) ` set d"
proof -
  have "fst ` set (dict_comp f d) = dom (map_of (dict_comp f d))"
    by (simp add: dom_map_of_conv_image_fst)
  also have "\<dots> = fst ` set (rev (map (\<lambda>(k, v). (f k, v)) d))"
    by (simp only: map_of_dict_comp dom_map_of_conv_image_fst)
  also have "\<dots> = (\<lambda>(k, v). f k) ` set d"
    by (force simp: image_iff)
  finally show ?thesis .
qed

lemma Record_init_key_record:
  assumes "key_record d"
  shows "Record_init (dict_comp camel_to_snake d) = Inr (to_record d)"
proof -
  let ?kw = "dict_comp camel_to_snake d"
  have "fst ` set ?kw \<subseteq> set Record_fields"
    using assms by (auto simp: keys_dict_comp key_record_def list_all_iff)
  then have ok: "list_all (\<lambda>(k, v). k \<in> set Record_fields) ?kw"
    by (auto simp: list_all_iff)
  have "''key'' \<in> fst ` set ?kw"
    using assms by (force simp: keys_dict_comp key_record_def list_ex_iff image_iff)
  then obtain x where x: "map_of ?kw ''key'' = Some x"
    by (auto simp: dom_map_of_conv_image_fst [symmetric])
  have kw: "kwarg ?kw name dflt = wire_field d name dflt" for name dflt
    by (simp add: kwarg_def wire_field_def map_of_dict_comp)
  have "wire_field d ''key'' PNone = x"
    using x by (simp add: wire_field_def map_of_dict_comp)
  with ok x show ?thesis
    by (simp add: Record_init_def to_record_def kw)
qed

lemma collect_records:
  assumes "list_all key_record ds"
  shows "collect (map (\<lambda>obj. Record_init (dict_comp camel_to_snake (dict_items obj))) (map PDict ds))
           = Inr (map to_record ds)"
  using assms by (induction ds) (simp_all add: Record_init_key_record)

lemma camel_to_snake_wire_names:
  "camel_to_snake ''Key'' = ''key''"
  "camel_to_snake ''CreateIndex'' = ''create_index''"
  "camel_to_snake ''ModifyIndex'' = ''modify_index''"
  "camel_to_snake ''LockIndex'' = ''lock_index''"
  "camel_to_snake ''Flags'' = ''flags''"
  "camel_to_snake ''Value'' = ''value''"
  "camel_to_snake ''Session'' = ''session''"
  by (simp_all add: camel_to_snake_def is_upper_def is_lower_def is_digit_def to_lower_def)

text \<open>
  C5. When the body is a sequence of key-record mappings, the decoder turns each
  mapping into a \<open>Record\<close> whose fields are read under the translated names; for the
  verbs \<open>get\<close> and \<open>watch\<close> it returns the first record when there is one and the
  (empty) list otherwise, and for every other verb the list of all the records. The
  translation takes the wire's names \<open>Key\<close>, \<open>CreateIndex\<close>, \<open>ModifyIndex\<close>,
  \<open>LockIndex\<close>, \<open>Flags\<close>, \<open>Value\<close>, \<open>Session\<close> to the fields of \<open>Record\<close>.
\<close>

theorem decode_content_records:
  assumes "list_all key_record ds"
  shows "decode_content op (PList (map PDict ds)) =
           Inr (if verb op \<in> set [''get'', ''watch'']
                then (case ds of [] \<Rightarrow> PList [] | d # rest \<Rightarrow> PRecord (to_record d))
                else PList (map (\<lambda>d. PRecord (to_record d)) ds))
         \<and> map camel_to_snake
              [''Key'', ''CreateIndex'', ''ModifyIndex'', ''LockIndex'', ''Flags'', ''Value'', ''Session'']
            = Record_fields"
proof -
  have names: "map camel_to_snake
      [''Key'', ''CreateIndex'', ''ModifyIndex'', ''LockIndex'', ''Flags'', ''Value'', ''Session'']
     = Record_fields"
    by (simp add: camel_to_snake_wire_names Record_fields_def)
  have dec: "decode_content op (PList (map PDict ds)) =
           Inr (if verb op \<in> set [''get'', ''watch'']
                then (case ds of [] \<Rightarrow> PList [] | d # rest \<Rightarrow> PRecord (to_record d))
                else PList (map (\<lambda>d. PRecord (to_record d)) ds))"
  proof (cases ds)
    case Nil
    then show ?thesis by (simp add: decode_content_def)
  next
    case (Cons d rest)
    have m: "list_all is_mapping (map PDict ds)" by (simp add: list_all_iff)
    have s: "\<not> list_all is_str (map PDict ds)" using Cons by simp
    show ?thesis
      using Cons m s collect_records [OF assms]
      by (simp add: decode_content_def comp_def del: set_simps)
  qed
  from dec names show ?thesis by (rule conjI)
qed

text \<open>
  C5 (witness). A body of one key-record mapping decodes to the one \<open>Record\<close> for
  the verb \<open>get\<close> and to the list holding it for the verb \<open>get-tree\<close>.
\<close>

theorem decode_content_records_witness:
  "list_all key_record
     [[(''Key'', PStr ''a/b''), (''CreateIndex'', PInt 5), (''ModifyIndex'', PInt 9),
       (''LockIndex'', PInt 0), (''Flags'', PInt 0), (''Value'', PStr ''dg==''),
       (''Session'', PStr [])]]
   \<and> decode_content (Operation_get ''a/b'' None)
       (PList [PDict [(''Key'', PStr ''a/b''), (''CreateIndex'', PInt 5), (''ModifyIndex'', PInt 9),
                      (''LockIndex'', PInt 0), (''Flags'', PInt 0), (''Value'', PStr ''dg==''),
                      (''Session'', PStr [])]])
     = Inr (PRecord (Record (PStr ''a/b'') (PInt 5) (PInt 9) (PInt 0) (PInt 0) (PStr ''dg=='') (PStr [])))
   \<and> decode_content (Operation_get_tree ''a/'' True ''/'')
       (PList [PDict [(''Key'', PStr ''a/b''), (''CreateIndex'', PInt 5), (''ModifyIndex'', PInt 9),
                      (''LockIndex'', PInt 0), (''Flags'', PInt 0), (''Value'', PStr ''dg==''),
                      (''Session'', PStr [])]])
     = Inr (PList [PRecord (Record (PStr ''a/b'') (PInt 5) (PInt 9) (PInt 0) (PInt 0) (PStr ''dg=='') (PStr []))])"
proof -
  let ?d = "[(''Key'', PStr ''a/b''), (''CreateIndex'', PInt 5), (''ModifyIndex'', PInt 9),
             (''LockIndex'', PInt 0), (''Flags'', PInt 0), (''Value'', PStr ''dg==''),
             (''Session'', PStr [])]"
  have h: "list_all key_record [?d]"
    by (simp add: key_record_def camel_to_snake_wire_names Record_fields_def)
  have r: "to_record ?d
     = Record (PStr ''a/b'') (PInt 5) (PInt 9) (PInt 0) (PInt 0) (PStr ''dg=='') (PStr [])"
    by (simp add: to_record_def wire_field_def camel_to_snake_wire_names)
  have v1: "verb (Operation_get ''a/b'' None) = ''get''"
    by (simp add: Operation_get_def Operation_init_def)
  have v2: "verb (Operation_get_tree ''a/'' True ''/'') = ''get-tree''"
    by (simp add: Operation_get_tree_def Operation_init_def)
  from decode_content_records [OF h, of "Operation_get ''a/b'' None"]
    decode_content_records [OF h, of "Operation_get_tree ''a/'' True ''/''"] h
  show ?thesis by (simp add: r v1 v2)
qed

section \<open>Folding a flat mapping\<close>

lemma kind_at_Nil [simp]: "kind_at d [] = IsNode"
  by (simp add: kind_at_def)

lemma kind_at_Cons:
  "kind_at d (k # rs) =
     (case d k of
        None \<Rightarrow> Absent
      | Some (Leaf x) \<Rightarrow> if rs = [] then IsLeaf x else Absent
      | Some (Node sub) \<Rightarrow> kind_at sub rs)"
  by (cases rs) (auto simp: kind_at_def split: option.splits tree.splits)

lemma kind_at_empty: "kind_at Map.empty r = (if r = [] then IsNode else Absent)"
  by (cases r) (auto simp: kind_at_Cons)

lemma kind_of_not_Absent: "kind_of t \<noteq> Absent"
  by (cases t) simp_all

lemma tree_kind_ext:
  "(\<And>p. map_option kind_of (lookup_path t p) = map_option kind_of (lookup_path t' p)) \<Longrightarrow> t = t'"
proof (induction t arbitrary: t')
  case (Leaf x)
  from Leaf [of "[]"] show ?case by (cases t') auto
next
  case (Node m)
  from Node.prems [of "[]"] obtain m' where t': "t' = Node m'" by (cases t') auto
  have "m k = m' k" for k
  proof (cases "m k")
    case None
    with Node.prems [of "[k]"] t' show ?thesis by (auto split: option.splits)
  next
    case (Some t)
    with Node.prems [of "[k]"] t' obtain u where u: "m' k = Some u" by (auto split: option.splits)
    have "map_option kind_of (lookup_path t p) = map_option kind_of (lookup_path u p)" for p
      using Node.prems [of "k # p"] t' Some u by simp
    moreover have "t \<in> set_option (m k)" using Some by simp
    ultimately have "t = u" using Node.IH [of "m k" t u] by blast
    with Some u show ?thesis by simp
  qed
  with t' show ?case by auto
qed

lemma kind_at_ext:
  assumes "\<And>p. kind_at d p = kind_at d' p"
  shows "d = d'"
proof -
  have "map_option kind_of (lookup_path (Node d) p) = map_option kind_of (lookup_path (Node d') p)" for p
    using assms [of p] unfolding kind_at_def
    by (cases "lookup_path (Node d) p"; cases "lookup_path (Node d') p")
       (auto simp: kind_of_not_Absent kind_of_not_Absent [symmetric])
  then have "Node d = Node d'" by (rule tree_kind_ext)
  then show ?thesis by simp
qed


lemma strict_prefix_Nil_iff: "strict_prefix [] xs \<longleftrightarrow> xs \<noteq> []"
  by (cases xs) auto

lemma assign_path_kind:
  "assign_path p v d = Inr d' \<Longrightarrow>
     kind_at d' r =
       (if r = p then IsLeaf v
        else if strict_prefix r p then IsNode
        else if strict_prefix p r then Absent
        else kind_at d r)"
proof (induction p v d arbitrary: d' r rule: assign_path.induct)
  case (1 v d)
  then show ?case by simp
next
  case (2 k v d)
  then have d': "d' = d(k \<mapsto> Leaf v)" by simp
  show ?case
  proof (cases r)
    case Nil
    then show ?thesis by simp
  next
    case (Cons j rs)
    then show ?thesis using d' by (auto simp: kind_at_Cons strict_prefix_Nil_iff)
  qed
next
  case (3 k k' ks v d)
  let ?t = "case d k of None \<Rightarrow> Node Map.empty | Some t \<Rightarrow> t"
  from "3.prems" obtain sub sub' where t: "?t = Node sub"
    and rec: "assign_path (k' # ks) v sub = Inr sub'" and d': "d' = d(k \<mapsto> Node sub')"
    by (auto split: tree.splits sum.splits)
  note IH = "3.IH" [OF t rec]
  show ?case
  proof (cases r)
    case Nil
    then show ?thesis by simp
  next
    case (Cons j rs)
    show ?thesis
    proof (cases "j = k")
      case False
      with Cons d' show ?thesis by (auto simp: kind_at_Cons)
    next
      case True
      have sub: "kind_at sub rs = (if d k = None then kind_at Map.empty rs else kind_at d (k # rs))"
        using t by (auto simp: kind_at_Cons split: option.splits)
      have "kind_at d' r = kind_at sub' rs"
        using Cons True d' by (simp add: kind_at_Cons)
      also note IH [of rs]
      finally show ?thesis
        using Cons True sub
        by (auto simp: kind_at_empty kind_at_Cons strict_prefix_Nil_iff split: option.splits)
    qed
  qed
qed

lemma assign_path_succeeds:
  "p \<noteq> [] \<Longrightarrow> (\<And>r x. strict_prefix r p \<Longrightarrow> kind_at d r \<noteq> IsLeaf x)
     \<Longrightarrow> \<exists>d'. assign_path p v d = Inr d'"
proof (induction p v d rule: assign_path.induct)
  case (1 v d)
  then show ?case by simp
next
  case (2 k v d)
  then show ?case by simp
next
  case (3 k k' ks v d)
  let ?t = "case d k of None \<Rightarrow> Node Map.empty | Some t \<Rightarrow> t"
  have "kind_at d [k] \<noteq> IsLeaf x" for x
    by (rule "3.prems") simp
  then obtain sub where t: "?t = Node sub"
    by (cases "d k"; cases ?t) (auto simp: kind_at_Cons)
  have "kind_at sub r \<noteq> IsLeaf x" if "strict_prefix r (k' # ks)" for r x
  proof -
    from that have "kind_at d (k # r) \<noteq> IsLeaf x" by (intro "3.prems") simp
    with t show ?thesis
      by (cases "d k") (auto simp: kind_at_Cons kind_at_empty split: if_splits)
  qed
  with "3.IH" [OF t] obtain sub' where "assign_path (k' # ks) v sub = Inr sub'" by auto
  with t show ?case by simp
qed

lemma assign_path_blocked:
  "strict_prefix r p \<Longrightarrow> kind_at d r = IsLeaf x \<Longrightarrow> \<exists>e. assign_path p v d = Inl e"
proof (induction p v d arbitrary: r rule: assign_path.induct)
  case (1 v d)
  then show ?case by simp
next
  case (2 k v d)
  then have "r = []" by (cases r) auto
  with 2 show ?case by simp
next
  case (3 k k' ks v d)
  from "3.prems" obtain rs where r: "r = k # rs" and rs: "strict_prefix rs (k' # ks)"
    by (cases r) auto
  show ?case
  proof (cases "d k")
    case None
    with "3.prems" r show ?thesis by (simp add: kind_at_Cons)
  next
    case (Some t)
    show ?thesis
    proof (cases t)
      case (Leaf y)
      with Some show ?thesis by simp
    next
      case (Node sub)
      with Some "3.prems" r have "kind_at sub rs = IsLeaf x" by (simp add: kind_at_Cons)
      moreover have "(case d k of None \<Rightarrow> Node Map.empty | Some t \<Rightarrow> t) = Node sub"
        using Some Node by simp
      ultimately obtain e where "assign_path (k' # ks) v sub = Inl e"
        using "3.IH" rs by blast
      with Some Node show ?thesis by simp
    qed
  qed
qed


lemma expected_kind_Nil: "expected_kind [] r = (if r = [] then IsNode else Absent)"
  by (simp add: expected_kind_def)

lemma expected_kind_snoc:
  "expected_kind (seen @ [(p, v)]) r =
     (case map_of seen r of
        Some x \<Rightarrow> IsLeaf x
      | None \<Rightarrow>
          if r = p then IsLeaf v
          else if r = [] \<or> list_ex (\<lambda>(q, v). strict_prefix r q) seen \<or> strict_prefix r p
               then IsNode else Absent)"
  by (auto simp: expected_kind_def map_add_def split: option.splits)

lemma flatdict_loop_kind:
  assumes "distinct (map fst (seen @ items))"
    and "\<forall>p \<in> fst ` set (seen @ items). p \<noteq> []"
    and "\<forall>p \<in> fst ` set (seen @ items). \<forall>q \<in> fst ` set (seen @ items). \<not> strict_prefix p q"
    and "\<forall>r. kind_at d r = expected_kind seen r"
  shows "\<exists>d'. flatdict_loop items d = Inr d' \<and> (\<forall>r. kind_at d' r = expected_kind (seen @ items) r)"
  using assms
proof (induction items arbitrary: seen d)
  case Nil
  then show ?case by simp
next
  case (Cons a items)
  obtain p v where a: "a = (p, v)" by (cases a)
  let ?keys = "fst ` set (seen @ a # items)"
  have p_key: "p \<in> ?keys" using a by force
  have seen_keys: "fst ` set seen \<subseteq> ?keys" by auto
  have p_new: "map_of seen p = None"
    using Cons.prems(1) a by (auto simp: map_of_eq_None_iff)
  have free: "\<not> strict_prefix x y" if "x \<in> ?keys" "y \<in> ?keys" for x y
    using Cons.prems(3) that by blast
  have key_of: "r \<in> ?keys" if "map_of seen r = Some x" for r x
    using that seen_keys by (auto dest!: map_of_SomeD intro: rev_image_eqI)
  have "p \<noteq> []" using Cons.prems(2) p_key by blast
  moreover have "kind_at d r \<noteq> IsLeaf x" if "strict_prefix r p" for r x
  proof
    assume "kind_at d r = IsLeaf x"
    with Cons.prems(4) have "expected_kind seen r = IsLeaf x" by simp
    then have "map_of seen r = Some x"
      by (auto simp: expected_kind_def split: option.splits if_splits)
    from key_of [OF this] p_key that free show False by blast
  qed
  ultimately obtain d1 where d1: "assign_path p v d = Inr d1"
    using assign_path_succeeds [of p d v] by blast
  have "kind_at d1 r = expected_kind (seen @ [a]) r" for r
  proof -
    note ek = expected_kind_snoc [of seen p v r]
    consider (eq) "r = p" | (below) "strict_prefix r p" | (above) "strict_prefix p r"
      | (other) "r \<noteq> p" "\<not> strict_prefix r p" "\<not> strict_prefix p r" by blast
    then show ?thesis
    proof cases
      case eq
      then show ?thesis
        unfolding a using assign_path_kind [OF d1, of r] ek p_new by simp
    next
      case below
      then have "r \<noteq> p" by auto
      moreover have "map_of seen r = None"
      proof (cases "map_of seen r")
        case (Some x)
        from key_of [OF this] p_key below free show ?thesis by blast
      qed simp
      ultimately show ?thesis
        unfolding a using assign_path_kind [OF d1, of r] ek below by simp
    next
      case above
      then have ne: "r \<noteq> p" "\<not> strict_prefix r p" "r \<noteq> []"
        by (auto simp: strict_prefix_def)
      have none: "map_of seen r = None"
      proof (cases "map_of seen r")
        case (Some x)
        from key_of [OF this] p_key above free show ?thesis by blast
      qed simp
      have "\<not> list_ex (\<lambda>(q, v). strict_prefix r q) seen"
      proof
        assume "list_ex (\<lambda>(q, v). strict_prefix r q) seen"
        then obtain q w where "(q, w) \<in> set seen" "strict_prefix r q"
          by (auto simp: list_ex_iff)
        then have "q \<in> ?keys" "strict_prefix p q"
          using above by (auto intro: rev_image_eqI prefix_order.less_trans)
        with p_key free show False by blast
      qed
      then show ?thesis
        unfolding a using assign_path_kind [OF d1, of r] ek above ne none by simp
    next
      case other
      then have "kind_at d1 r = expected_kind seen r"
        using assign_path_kind [OF d1, of r] Cons.prems(4) by simp
      also have "\<dots> = expected_kind (seen @ [a]) r"
        unfolding a using ek other by (simp add: expected_kind_def split: option.splits)
      finally show ?thesis .
    qed
  qed
  then have "\<forall>r. kind_at d1 r = expected_kind (seen @ [a]) r" by blast
  from Cons.IH [of "seen @ [a]" d1, OF _ _ _ this] Cons.prems(1,2,3)
  obtain d' where "flatdict_loop items d1 = Inr d'"
    and "\<forall>r. kind_at d' r = expected_kind ((seen @ [a]) @ items) r" by auto
  with d1 a show ?case by simp
qed


lemma leaf_at_kind: "leaf_at d p = (case kind_at d p of IsLeaf x \<Rightarrow> Some x | _ \<Rightarrow> None)"
  by (auto simp: leaf_at_def kind_at_def split: option.splits tree.splits)

lemma node_at_kind: "node_at d p \<longleftrightarrow> kind_at d p = IsNode"
  by (auto simp: node_at_def kind_at_def split: option.splits tree.splits)

lemma flatdict_to_dict_kind:
  assumes "distinct (map fst items)"
    and "\<forall>p \<in> fst ` set items. p \<noteq> []"
    and "\<forall>p \<in> fst ` set items. \<forall>q \<in> fst ` set items. \<not> strict_prefix p q"
  shows "\<exists>d. flatdict_to_dict items = Inr d \<and> (\<forall>r. kind_at d r = expected_kind items r)"
  using flatdict_loop_kind [of "[]" items Map.empty] assms
  by (simp add: flatdict_to_dict_def kind_at_empty expected_kind_Nil)

lemma expected_kind_cong:
  assumes "distinct (map fst xs)" and "mset ys = mset xs"
  shows "expected_kind ys r = expected_kind xs r"
proof -
  have s: "set ys = set xs" using assms(2) by (rule mset_eq_setD)
  have "mset (map fst ys) = mset (map fst xs)" using assms(2) by simp
  then have "distinct (map fst ys)" using assms(1) by (metis mset_eq_imp_distinct_iff)
  then have "map_of ys = map_of xs" using assms(1) s by (simp add: map_of_inject_set)
  moreover have "list_ex (\<lambda>(p, v). strict_prefix r p) ys = list_ex (\<lambda>(p, v). strict_prefix r p) xs"
    using s by (simp add: list_ex_iff)
  ultimately show ?thesis unfolding expected_kind_def by simp
qed

text \<open>
  C7. For every flat mapping (entries with distinct tuples) whose tuples are non-empty
  and none a proper prefix of another, \<open>flatdict_to_dict\<close> returns a nested mapping
  whose leaves are exactly the entries, each at the path its tuple names, and whose
  inner mappings sit exactly at the root and at the proper prefixes of the tuples; it
  returns that same mapping for the entries met in any other order. Folding
  \<open>{("x","y"): "1", ("x","z"): "2"}\<close> yields \<open>{"x": {"y": "1", "z": "2"}}\<close>.
\<close>

theorem flatdict_to_dict_tree:
  assumes "distinct (map fst items)"
    and "\<forall>p \<in> fst ` set items. p \<noteq> []"
    and "\<forall>p \<in> fst ` set items. \<forall>q \<in> fst ` set items. \<not> strict_prefix p q"
  shows "(\<exists>d. flatdict_to_dict items = Inr d
            \<and> (\<forall>p v. leaf_at d p = Some v \<longleftrightarrow> (p, v) \<in> set items)
            \<and> (\<forall>p. node_at d p \<longleftrightarrow> p = [] \<or> (\<exists>q \<in> fst ` set items. strict_prefix p q))
            \<and> (\<forall>items'. mset items' = mset items \<longrightarrow> flatdict_to_dict items' = Inr d))
         \<and> flatdict_to_dict [([''x'', ''y''], ''1''), ([''x'', ''z''], ''2'')]
             = Inr [''x'' \<mapsto> Node [''y'' \<mapsto> Leaf ''1'', ''z'' \<mapsto> Leaf ''2'']]"
proof -
  from flatdict_to_dict_kind [OF assms] obtain d
    where d: "flatdict_to_dict items = Inr d" and k: "\<And>r. kind_at d r = expected_kind items r"
    by blast
  have leaves: "leaf_at d p = Some v \<longleftrightarrow> (p, v) \<in> set items" for p v
  proof -
    have "leaf_at d p = Some v \<longleftrightarrow> map_of items p = Some v"
      by (auto simp: leaf_at_kind k expected_kind_def split: option.splits kind.splits if_splits)
    also have "\<dots> \<longleftrightarrow> (p, v) \<in> set items"
      using assms(1) by (auto dest: map_of_SomeD)
    finally show ?thesis .
  qed
  have nodes: "node_at d p \<longleftrightarrow> p = [] \<or> (\<exists>q \<in> fst ` set items. strict_prefix p q)" for p
  proof (cases "map_of items p")
    case None
    have "list_ex (\<lambda>(q, v). strict_prefix p q) items \<longleftrightarrow> (\<exists>q \<in> fst ` set items. strict_prefix p q)"
      by (force simp: list_ex_iff)
    with None show ?thesis by (simp add: node_at_kind k expected_kind_def)
  next
    case (Some v)
    then have key: "p \<in> fst ` set items" by (auto dest!: map_of_SomeD intro: rev_image_eqI)
    with assms(2,3) have "p \<noteq> []" "\<not> (\<exists>q \<in> fst ` set items. strict_prefix p q)" by blast+
    with Some show ?thesis by (simp add: node_at_kind k expected_kind_def)
  qed
  have order: "flatdict_to_dict items' = Inr d" if m: "mset items' = mset items" for items'
  proof -
    have s: "set items' = set items" using m by (rule mset_eq_setD)
    have "mset (map fst items') = mset (map fst items)" using m by simp
    then have dist: "distinct (map fst items')" using assms(1) by (metis mset_eq_imp_distinct_iff)
    from flatdict_to_dict_kind [OF dist] assms(2,3) s obtain d'
      where d': "flatdict_to_dict items' = Inr d'" and k': "\<And>r. kind_at d' r = expected_kind items' r"
      by auto
    have "kind_at d' r = kind_at d r" for r
      by (simp add: k k' expected_kind_cong [OF assms(1) m])
    then have "d' = d" by (rule kind_at_ext)
    with d' show ?thesis by simp
  qed
  have "flatdict_to_dict [([''x'', ''y''], ''1''), ([''x'', ''z''], ''2'')]
          = Inr [''x'' \<mapsto> Node [''y'' \<mapsto> Leaf ''1'', ''z'' \<mapsto> Leaf ''2'']]"
    by (simp add: flatdict_to_dict_def)
  moreover have "\<exists>d. flatdict_to_dict items = Inr d
            \<and> (\<forall>p v. leaf_at d p = Some v \<longleftrightarrow> (p, v) \<in> set items)
            \<and> (\<forall>p. node_at d p \<longleftrightarrow> p = [] \<or> (\<exists>q \<in> fst ` set items. strict_prefix p q))
            \<and> (\<forall>items'. mset items' = mset items \<longrightarrow> flatdict_to_dict items' = Inr d)"
  proof (intro exI [of _ d] conjI allI impI)
    show "flatdict_to_dict items = Inr d" by (rule d)
    show "leaf_at d p = Some v \<longleftrightarrow> (p, v) \<in> set items" for p v by (rule leaves)
    show "node_at d p \<longleftrightarrow> p = [] \<or> (\<exists>q \<in> fst ` set items. strict_prefix p q)" for p
      by (rule nodes)
    show "flatdict_to_dict items' = Inr d" if "mset items' = mset items" for items'
      using that by (rule order)
  qed
  ultimately show ?thesis by (rule conjI [rotated])
qed

text \<open>
  C7 (witness). The two entries \<open>("x","y") \<mapsto> "1"\<close> and \<open>("x","z") \<mapsto> "2"\<close>, in either
  order, fold to \<open>{"x": {"y": "1", "z": "2"}}\<close>, whose leaf at \<open>("x","z")\<close> is \<open>"2"\<close>.
\<close>

theorem flatdict_to_dict_tree_witness:
  "flatdict_to_dict [([''x'', ''y''], ''1''), ([''x'', ''z''], ''2'')]
     = Inr [''x'' \<mapsto> Node [''y'' \<mapsto> Leaf ''1'', ''z'' \<mapsto> Leaf ''2'']]
   \<and> flatdict_to_dict [([''x'', ''z''], ''2''), ([''x'', ''y''], ''1'')]
     = Inr [''x'' \<mapsto> Node [''y'' \<mapsto> Leaf ''1'', ''z'' \<mapsto> Leaf ''2'']]
   \<and> leaf_at [''x'' \<mapsto> Node [''y'' \<mapsto> Leaf ''1'', ''z'' \<mapsto> Leaf ''2'']] [''x'', ''z''] = Some ''2''"
proof -
  let ?items = "[([''x'', ''y''], ''1''), ([''x'', ''z''], ''2'')]"
  let ?items' = "[([''x'', ''z''], ''2''), ([''x'', ''y''], ''1'')]"
  have h1: "distinct (map fst ?items)" by simp
  have h2: "\<forall>p \<in> fst ` set ?items. p \<noteq> []" by simp
  have h3: "\<forall>p \<in> fst ` set ?items. \<forall>q \<in> fst ` set ?items. \<not> strict_prefix p q" by simp
  have m: "mset ?items' = mset ?items" by simp
  have e: "flatdict_to_dict ?items = Inr [''x'' \<mapsto> Node [''y'' \<mapsto> Leaf ''1'', ''z'' \<mapsto> Leaf ''2'']]"
    by (simp add: flatdict_to_dict_def)
  from flatdict_to_dict_tree [OF h1 h2 h3] have "\<exists>d. flatdict_to_dict ?items = Inr d
      \<and> (\<forall>p v. leaf_at d p = Some v \<longleftrightarrow> (p, v) \<in> set ?items)
      \<and> (\<forall>p. node_at d p \<longleftrightarrow> p = [] \<or> (\<exists>q \<in> fst ` set ?items. strict_prefix p q))
      \<and> (\<forall>items'. mset items' = mset ?items \<longrightarrow> flatdict_to_dict items' = Inr d)"
    by (rule conjunct1)
  then obtain d
    where d: "flatdict_to_dict ?items = Inr d"
      and l: "\<forall>p v. leaf_at d p = Some v \<longleftrightarrow> (p, v) \<in> set ?items"
      and o: "\<forall>items'. mset items' = mset ?items \<longrightarrow> flatdict_to_dict items' = Inr d"
    by (elim exE conjE)
  from d e have "d = [''x'' \<mapsto> Node [''y'' \<mapsto> Leaf ''1'', ''z'' \<mapsto> Leaf ''2'']]" by simp
  moreover from o m have "flatdict_to_dict ?items' = Inr d" by (elim allE impE)
  moreover from l have "leaf_at d [''x'', ''z''] = Some ''2'' \<longleftrightarrow> ([''x'', ''z''], ''2'') \<in> set ?items"
    by (elim allE)
  ultimately show ?thesis using e by simp
qed


lemma flatdict_loop_append:
  "flatdict_loop (xs @ ys) d =
     (case flatdict_loop xs d of Inl e \<Rightarrow> Inl e | Inr d' \<Rightarrow> flatdict_loop ys d')"
  by (induction xs arbitrary: d) (auto split: sum.splits)

lemma assign_path_error_class:
  "assign_path p v d = Inl e \<Longrightarrow> e \<in> {IndexError, TypeError, AttributeError}"
  by (induction p v d rule: assign_path.induct)
     (auto split: tree.splits sum.splits if_splits option.splits)

lemma flatdict_loop_error_class:
  "flatdict_loop items d = Inl e \<Longrightarrow> e \<in> {IndexError, TypeError, AttributeError}"
proof (induction items arbitrary: d)
  case Nil
  then show ?case by simp
next
  case (Cons a items)
  obtain p v where a: "a = (p, v)" by (cases a)
  show ?case
  proof (cases "assign_path p v d")
    case (Inl e')
    with Cons.prems a have "e' = e" by simp
    with Inl show ?thesis by (auto dest: assign_path_error_class)
  next
    case (Inr d')
    with Cons.prems a have "flatdict_loop items d' = Inl e" by simp
    then show ?thesis by (rule Cons.IH)
  qed
qed

lemma assign_path_keeps_leaf:
  assumes "strict_prefix l q" and "kind_at d l = IsLeaf x" and "assign_path r u d = Inr d'"
  shows "\<exists>l' x'. strict_prefix l' q \<and> kind_at d' l' = IsLeaf x'"
proof -
  note k = assign_path_kind [OF assms(3)]
  have not_below: "\<not> strict_prefix l r"
    using assign_path_blocked [of l r d x u] assms(2,3) by auto
  consider (eq) "l = r" | (above) "strict_prefix r l"
    | (other) "l \<noteq> r" "\<not> strict_prefix r l" by blast
  then show ?thesis
  proof cases
    case eq
    with k [of l] assms(1) show ?thesis by auto
  next
    case above
    then have "strict_prefix r q" using assms(1) by (rule prefix_order.less_trans)
    moreover have "kind_at d' r = IsLeaf u" using k [of r] by simp
    ultimately show ?thesis by blast
  next
    case other
    with k [of l] not_below assms(1,2) show ?thesis by auto
  qed
qed

lemma flatdict_loop_blocked:
  assumes "strict_prefix l q" and "kind_at d l = IsLeaf x"
  shows "\<exists>e. flatdict_loop (ys @ (q, w) # zs) d = Inl e"
  using assms
proof (induction ys arbitrary: d l x)
  case Nil
  from assign_path_blocked [OF Nil(1,2), of w] show ?case by auto
next
  case (Cons a ys)
  obtain r u where a: "a = (r, u)" by (cases a)
  show ?case
  proof (cases "assign_path r u d")
    case (Inl e)
    with a show ?thesis by simp
  next
    case (Inr d')
    from assign_path_keeps_leaf [OF Cons.prems Inr] obtain l' x'
      where "strict_prefix l' q" "kind_at d' l' = IsLeaf x'" by blast
    from Cons.IH [OF this] Inr a show ?thesis by simp
  qed
qed

text \<open>
  C8 (counterexample). The tuple \<open>("x",)\<close> is a proper prefix of \<open>("x","y")\<close>. With
  the longer tuple met first, no error is raised: the mapping built under \<open>x\<close> is
  replaced by the leaf and the entry \<open>("x","y") \<mapsto> "1"\<close> is lost.
\<close>

theorem flatdict_to_dict_overwrites_subtree:
  "flatdict_to_dict [([''x'', ''y''], ''1''), ([''x''], ''2'')] = Inr [''x'' \<mapsto> Leaf ''2'']"
  by (simp add: flatdict_to_dict_def)

text \<open>
  C8 (amended). For every flat mapping in which an entry's tuple is a proper prefix of
  the tuple of an entry met after it, whatever entries come before, between and after
  the two, \<open>flatdict_to_dict\<close> raises an error (\<open>IndexError\<close>, \<open>TypeError\<close> or
  \<open>AttributeError\<close>, from using the leaf as a mapping) and returns nothing.
\<close>

theorem flatdict_to_dict_leaf_first_raises:
  assumes "strict_prefix p q"
  shows "\<exists>e. flatdict_to_dict (xs @ (p, v) # ys @ (q, w) # zs) = Inl e
              \<and> e \<in> {IndexError, TypeError, AttributeError}"
proof -
  have "\<exists>e. flatdict_loop (xs @ (p, v) # ys @ (q, w) # zs) d = Inl e" for d
  proof (cases "flatdict_loop xs d")
    case (Inl e)
    then show ?thesis by (simp add: flatdict_loop_append)
  next
    case (Inr d1)
    show ?thesis
    proof (cases "assign_path p v d1")
      case (Inl e)
      with Inr show ?thesis by (simp add: flatdict_loop_append)
    next
      case (Inr d2)
      have "kind_at d2 p = IsLeaf v" using assign_path_kind [OF Inr, of p] by simp
      from flatdict_loop_blocked [OF assms this, of ys w zs] \<open>flatdict_loop xs d = Inr d1\<close> Inr
      show ?thesis by (simp add: flatdict_loop_append)
    qed
  qed
  then obtain e where e: "flatdict_to_dict (xs @ (p, v) # ys @ (q, w) # zs) = Inl e"
    unfolding flatdict_to_dict_def by blast
  then have "e \<in> {IndexError, TypeError, AttributeError}"
    unfolding flatdict_to_dict_def by (rule flatdict_loop_error_class)
  with e show ?thesis by blast
qed

text \<open>
  C8 (witness). The entry \<open>("x",) \<mapsto> "2"\<close> met before \<open>("x","y") \<mapsto> "1"\<close>: the item
  assignment into the leaf is a \<open>TypeError\<close>.
\<close>

theorem flatdict_to_dict_leaf_first_raises_witness:
  "strict_prefix [''x''] [''x'', ''y'']
   \<and> (\<exists>e. flatdict_to_dict [([''x''], ''2''), ([''x'', ''y''], ''1'')] = Inl e
          \<and> e \<in> {IndexError, TypeError, AttributeError})
   \<and> flatdict_to_dict [([''x''], ''2''), ([''x'', ''y''], ''1'')] = Inl TypeError"
proof -
  have h: "strict_prefix [''x''] [''x'', ''y'']" by simp
  have e: "flatdict_to_dict [([''x''], ''2''), ([''x'', ''y''], ''1'')] = Inl TypeError"
    by (simp add: flatdict_to_dict_def)
  from flatdict_to_dict_leaf_first_raises [OF h, of "[]" "''2''" "[]" "''1''" "[]"] h e
  show ?thesis by simp
qed

end
